theory Spec2Isabelle
  imports Complex_Main "HOL-Library.Log_Nat"
begin

section \<open>Strings\<close>

text \<open>
  A Python \<open>str\<close> is modelled as a \<open>string\<close>; a \<open>char\<close> stands for the code point
  with the same number, so the model covers the code points below 256. There
  \<open>str.lower\<close> maps \<open>A\<close>..\<open>Z\<close> and the capital letters 192..222 (without the
  multiplication sign 215) to the code point 32 above, and leaves the rest alone.
\<close>

definition lower_char :: "char \<Rightarrow> char" where
  "lower_char c = (let n = (of_char c :: nat) in
     if (65 \<le> n \<and> n \<le> 90) \<or> (192 \<le> n \<and> n \<le> 222 \<and> n \<noteq> 215)
     then char_of (n + 32) else c)"

definition lower :: "string \<Rightarrow> string" where
  "lower s = map lower_char s"

section \<open>Phoneme groups\<close>

text \<open>
  \<open>PHONEME_GROUPS\<close> is a dict literal; iteration over \<open>items()\<close> follows the order
  of the literal, so the table is an association list in that order.
\<close>

definition PHONEME_GROUPS :: "(string \<times> string list) list" where
  "PHONEME_GROUPS =
    [(''sibilants'', [''s'', ''z'', ''sh'', ''zh'', ''ts'', ''dz'', ''ch'', ''dj'', ''x'']),
     (''vowels'', [''a'', ''e'', ''i'', ''o'', ''u'', ''N'']),
     (''consonants'', [''b'', ''c'', ''d'', ''f'', ''g'', ''h'', ''j'', ''k'', ''l'', ''m'',
                       ''n'', ''p'', ''q'', ''r'', ''t'', ''v'', ''w'']),
     (''liquids'', [''l'', ''r'']),
     (''nasals'', [''m'', ''n'', ''ng'']),
     (''stops'', [''p'', ''b'', ''t'', ''d'', ''k'', ''g'']),
     (''fricatives'', [''f'', ''v'', ''th'', ''dh'', ''s'', ''z'', ''sh'', ''zh'', ''h'']),
     (''silence'', [''pau'', ''sil'', ''SP'']),
     (''special'', [''cl'', ''vf''])]"

text \<open>The \<open>for group_name, phonemes in PHONEME_GROUPS.items()\<close> loop of
  \<open>get_phoneme_group\<close>: the first group whose list holds the token, else \<open>unknown\<close>.\<close>

fun scan_groups :: "string \<Rightarrow> (string \<times> string list) list \<Rightarrow> string" where
  "scan_groups phoneme_lower [] = ''unknown''"
| "scan_groups phoneme_lower ((group_name, phonemes) # rest) =
     (if phoneme_lower \<in> set phonemes then group_name
      else scan_groups phoneme_lower rest)"

definition get_phoneme_group :: "string \<Rightarrow> string" where
  "get_phoneme_group phoneme =
     (let phoneme_lower = lower phoneme in
      if phoneme_lower \<in> set (the (map_of PHONEME_GROUPS ''silence'')) then ''silence''
      else scan_groups phoneme_lower PHONEME_GROUPS)"

section \<open>Merge eligibility\<close>

definition merge_rules :: "(string \<times> string) list" where
  "merge_rules =
    [(''vowels'', ''vowels''), (''consonants'', ''consonants''), (''silence'', ''silence''),
     (''sibilants'', ''sibilants''), (''liquids'', ''liquids''), (''nasals'', ''nasals''),
     (''stops'', ''stops''), (''fricatives'', ''fricatives''), (''special'', ''special'')]"

definition should_merge_phonemes :: "string \<Rightarrow> string \<Rightarrow> string \<Rightarrow> string \<Rightarrow> bool" where
  "should_merge_phonemes phoneme1 phoneme2 group1 group2 =
     (if group1 = group2 then True
      else (group1, group2) \<in> set merge_rules \<or> (group2, group1) \<in> set merge_rules)"

section \<open>Floating-point numbers\<close>

text \<open>
  A Python \<open>float\<close> is an IEEE 754 binary64 number. A finite one is modelled by the
  rational number it stands for (the sign of a zero is lost; no comparison sees it).
  \<open>round_double\<close> rounds a rational to the nearest binary64 number, ties to the even
  significand: 53 bits of precision, exponents from \<open>-1022\<close>, overflow to infinity.
\<close>

datatype error = OverflowError | ValueError | IndexError

datatype pyfloat = Finite rat | PosInf | NegInf | NaN

definition pow2 :: "int \<Rightarrow> rat" where
  "pow2 e = (if 0 \<le> e then 2 ^ nat e else 1 / 2 ^ nat (- e))"

definition round_half_even :: "rat \<Rightarrow> int" where
  "round_half_even q = (let f = \<lfloor>q\<rfloor>; r = q - of_int f in
     if r < 1 / 2 then f else if 1 / 2 < r then f + 1 else if even f then f else f + 1)"

text \<open>The exponent \<open>e\<close> with \<open>2 ^ e \<le> \<bar>q\<bar> < 2 ^ (e + 1)\<close>, for \<open>q \<noteq> 0\<close>.\<close>

definition ilog2 :: "rat \<Rightarrow> int" where
  "ilog2 q = (case quotient_of \<bar>q\<bar> of (a, b) \<Rightarrow>
     let e = bitlen a - bitlen b in if pow2 e \<le> \<bar>q\<bar> then e else e - 1)"

definition round_double :: "rat \<Rightarrow> pyfloat" where
  "round_double q = (if q = 0 then Finite 0 else
     let e = max (ilog2 q) (- 1022);
         ulp = pow2 (e - 52);
         r = of_int (round_half_even (q / ulp)) * ulp
     in if pow2 1024 \<le> \<bar>r\<bar> then (if 0 < q then PosInf else NegInf) else Finite r)"

text \<open>
  An \<open>int\<close> operand of a float operation is converted first; the conversion raises
  \<open>OverflowError\<close> when the integer rounds to a magnitude beyond the largest binary64
  number, that is from \<open>2 ^ 1024 - 2 ^ 970\<close> on.
\<close>

definition int_to_float :: "int \<Rightarrow> error + pyfloat" where
  "int_to_float n = (if 2 ^ 1024 - 2 ^ 970 \<le> \<bar>n\<bar> then Inl OverflowError
     else Inr (round_double (of_int n)))"

fun float_sgn :: "pyfloat \<Rightarrow> rat" where
  "float_sgn (Finite a) = sgn a"
| "float_sgn PosInf = 1"
| "float_sgn NegInf = - 1"
| "float_sgn NaN = 0"

fun float_mul :: "pyfloat \<Rightarrow> pyfloat \<Rightarrow> pyfloat" where
  "float_mul (Finite a) (Finite b) = round_double (a * b)"
| "float_mul NaN y = NaN"
| "float_mul x NaN = NaN"
| "float_mul x y = (let s = float_sgn x * float_sgn y in
     if s = 0 then NaN else if 0 < s then PosInf else NegInf)"

text \<open>The comparison \<open>x <= y\<close>: false as soon as one side is not a number.\<close>

fun float_le :: "pyfloat \<Rightarrow> pyfloat \<Rightarrow> bool" where
  "float_le NaN y = False"
| "float_le x NaN = False"
| "float_le NegInf y = True"
| "float_le x PosInf = True"
| "float_le (Finite a) (Finite b) = (a \<le> b)"
| "float_le x y = False"

text \<open>The literals \<open>1e-7\<close> and \<open>0.1\<close>: the binary64 numbers nearest to them.\<close>

definition float_1e_7 :: pyfloat where
  "float_1e_7 = Finite (944473296573929 / 2 ^ 73)"

definition float_0_1 :: pyfloat where
  "float_0_1 = Finite (3602879701896397 / 2 ^ 55)"

definition convert_htk_time_to_seconds :: "int \<Rightarrow> error + pyfloat" where
  "convert_htk_time_to_seconds htk_time =
     (case int_to_float htk_time of Inl e \<Rightarrow> Inl e
      | Inr x \<Rightarrow> Inr (float_mul x float_1e_7))"

section \<open>Merging\<close>

record label =
  start :: int
  end' :: int
  phoneme :: string

text \<open>The \<open>for i in range(1, len(labels))\<close> loop of \<open>merge_labels\<close>, over the labels
  from the second on; the state is \<open>current_label\<close>, \<open>current_group\<close> and \<open>merged\<close>.\<close>

fun pass1_loop :: "pyfloat \<Rightarrow> label \<Rightarrow> string \<Rightarrow> label list \<Rightarrow> label list \<Rightarrow>
    error + label \<times> string \<times> label list" where
  "pass1_loop max_gap_seconds current_label current_group merged [] =
     Inr (current_label, current_group, merged)"
| "pass1_loop max_gap_seconds current_label current_group merged (next_label # rest) =
     (let next_group = get_phoneme_group (phoneme next_label) in
      case convert_htk_time_to_seconds (start next_label - end' current_label) of
        Inl e \<Rightarrow> Inl e
      | Inr gap_seconds \<Rightarrow>
          if float_le gap_seconds max_gap_seconds \<and>
             should_merge_phonemes (phoneme current_label) (phoneme next_label)
               current_group next_group
          then
            let current_label = current_label\<lparr>end' := end' next_label\<rparr>;
                current_label =
                  (if current_group = ''silence'' \<and> next_group = ''silence''
                   then current_label\<lparr>phoneme := ''SP''\<rparr> else current_label)
            in pass1_loop max_gap_seconds current_label current_group merged rest
          else
            let current_label =
                  (if current_group = ''silence''
                   then current_label\<lparr>phoneme := ''SP''\<rparr> else current_label)
            in pass1_loop max_gap_seconds next_label next_group
                 (merged @ [current_label]) rest)"

text \<open>Lines 78 to 107: the first pass, with the closing of the last label.\<close>

fun pass1 :: "label list \<Rightarrow> pyfloat \<Rightarrow> error + label list" where
  "pass1 [] max_gap_seconds = Inl IndexError"
| "pass1 (first_label # rest) max_gap_seconds =
     (case pass1_loop max_gap_seconds first_label
             (get_phoneme_group (phoneme first_label)) [] rest of
        Inl e \<Rightarrow> Inl e
      | Inr (current_label, current_group, merged) \<Rightarrow>
          Inr (merged @ [if current_group = ''silence''
                         then current_label\<lparr>phoneme := ''SP''\<rparr> else current_label]))"

text \<open>The inner \<open>while j < len(merged) and merged[j]['phoneme'] == 'SP'\<close> loop; it
  returns the extended label and the index at which it stopped.\<close>

function absorb_run :: "label list \<Rightarrow> label \<Rightarrow> nat \<Rightarrow> label \<times> nat" where
  "absorb_run merged current_label j =
     (if j < length merged \<and> phoneme (merged ! j) = ''SP''
      then absorb_run merged (current_label\<lparr>end' := end' (merged ! j)\<rparr>) (j + 1)
      else (current_label, j))"
  by pat_completeness auto
termination
  by (relation "measure (\<lambda>(merged, current_label, j). length merged - j)") auto

declare absorb_run.simps [simp del]

lemma absorb_run_index: "absorb_run merged c j = (c', j') \<Longrightarrow> j \<le> j'"
proof (induction merged c j rule: absorb_run.induct)
  case (1 merged c j)
  show ?case
  proof (cases "j < length merged \<and> phoneme (merged ! j) = ''SP''")
    case True
    with "1.prems" have "absorb_run merged (c\<lparr>end' := end' (merged ! j)\<rparr>) (j + 1) = (c', j')"
      by (simp add: absorb_run.simps [of merged c j])
    from "1.IH" [OF True this] show ?thesis by simp
  next
    case False
    with "1.prems" show ?thesis by (simp add: absorb_run.simps [of merged c j])
  qed
qed

text \<open>The outer \<open>while i < len(merged)\<close> loop.\<close>

function pass2_loop :: "label list \<Rightarrow> nat \<Rightarrow> label list \<Rightarrow> label list" where
  "pass2_loop merged i final_merged =
     (if i < length merged then
        let current_label = merged ! i in
        if phoneme current_label = ''SP'' then
          (case absorb_run merged current_label (i + 1) of
             (current_label, j) \<Rightarrow> pass2_loop merged j (final_merged @ [current_label]))
        else pass2_loop merged (i + 1) (final_merged @ [current_label])
      else final_merged)"
  by pat_completeness auto
termination
proof (relation "measure (\<lambda>(merged, i, final_merged). length merged - i)", goal_cases)
  case 1
  show ?case by simp
next
  case (2 merged i final_merged current_label current_label' j)
  from absorb_run_index [OF 2(4) [symmetric]] 2(1) show ?case by simp
next
  case (3 merged i final_merged)
  then show ?case by simp
qed

declare pass2_loop.simps [simp del]

text \<open>Lines 109 to 125: the second pass, from index 0 with an empty result list.\<close>

definition pass2 :: "label list \<Rightarrow> label list" where
  "pass2 merged = pass2_loop merged 0 []"

definition merge_labels :: "label list \<Rightarrow> pyfloat \<Rightarrow> error + label list" where
  "merge_labels labels max_gap_seconds =
     (if labels = [] then Inr labels
      else case pass1 labels max_gap_seconds of
             Inl e \<Rightarrow> Inl e
           | Inr merged \<Rightarrow> Inr (pass2 merged))"

section \<open>Label files\<close>

text \<open>
  A file is modelled by its text. \<open>str.isspace\<close> holds, below code point 256, of the
  code points 9 to 13, 28 to 32, 133 and 160; \<open>str.strip\<close> and \<open>str.split\<close> without
  arguments use the same notion of whitespace.
\<close>

definition isspace :: "char \<Rightarrow> bool" where
  "isspace c = (let n = (of_char c :: nat) in
     (9 \<le> n \<and> n \<le> 13) \<or> (28 \<le> n \<and> n \<le> 32) \<or> n = 133 \<or> n = 160)"

definition strip :: "string \<Rightarrow> string" where
  "strip s = rev (dropWhile isspace (rev (dropWhile isspace s)))"

function str_split :: "string \<Rightarrow> string list" where
  "str_split s =
     (let s = dropWhile isspace s in
      if s = [] then []
      else takeWhile (\<lambda>c. \<not> isspace c) s # str_split (dropWhile (\<lambda>c. \<not> isspace c) s))"
  by pat_completeness auto
termination
proof (relation "measure length", goal_cases)
  case 1
  show ?case by simp
next
  case (2 s t)
  then have ne: "dropWhile isspace s \<noteq> []" and t: "t = dropWhile isspace s"
    by simp_all
  then obtain c cs where d: "dropWhile isspace s = c # cs"
    by (cases "dropWhile isspace s") simp_all
  from hd_dropWhile [OF ne] d have "\<not> isspace c" by simp
  with d have "length (dropWhile (\<lambda>c. \<not> isspace c) (dropWhile isspace s)) \<le> length cs"
    by (simp add: length_dropWhile_le)
  also have "\<dots> < length (dropWhile isspace s)" using d by simp
  also have "\<dots> \<le> length s" by (simp add: length_dropWhile_le)
  finally show ?case using t by simp
qed

declare str_split.simps [simp del]
















section \<open>Merging, with the objects in a store\<close>

text \<open>
  In Python a label is a dict object and a list holds references to its elements, so a
  callee can change what the caller sees. For what \<open>merge_labels\<close> does to the objects of
  its caller the function is modelled a second time over an explicit store: the dict
  objects and the list objects live in two arrays, a reference is an index, and a new
  object is put at the end. A raised exception carries the store at the time of the raise.
\<close>

record store =
  dicts :: "label list"
  lists :: "nat list list"

definition new_list :: "store \<Rightarrow> nat \<times> store" where
  "new_list s = (length (lists s), s\<lparr>lists := lists s @ [[]]\<rparr>)"

definition list_append :: "store \<Rightarrow> nat \<Rightarrow> nat \<Rightarrow> store" where
  "list_append s l r = s\<lparr>lists := (lists s)[l := lists s ! l @ [r]]\<rparr>"

definition dict_copy :: "store \<Rightarrow> nat \<Rightarrow> nat \<times> store" where
  "dict_copy s r = (length (dicts s), s\<lparr>dicts := dicts s @ [dicts s ! r]\<rparr>)"

definition dict_set_end :: "store \<Rightarrow> nat \<Rightarrow> int \<Rightarrow> store" where
  "dict_set_end s r v = s\<lparr>dicts := (dicts s)[r := (dicts s ! r)\<lparr>end' := v\<rparr>]\<rparr>"

definition dict_set_phoneme :: "store \<Rightarrow> nat \<Rightarrow> string \<Rightarrow> store" where
  "dict_set_phoneme s r v = s\<lparr>dicts := (dicts s)[r := (dicts s ! r)\<lparr>phoneme := v\<rparr>]\<rparr>"

text \<open>The \<open>for\<close> loop of the first pass, over the indices of \<open>range(1, len(labels))\<close>;
  \<open>labels\<close>, \<open>merged\<close>, \<open>current_label\<close> and \<open>next_label\<close> are references.\<close>

fun pass1_st_loop :: "pyfloat \<Rightarrow> nat \<Rightarrow> nat \<Rightarrow> store \<Rightarrow> nat \<Rightarrow> string \<Rightarrow> nat list \<Rightarrow>
    error \<times> store + store \<times> nat \<times> string" where
  "pass1_st_loop max_gap_seconds labels merged s current_label current_group [] =
     Inr (s, current_label, current_group)"
| "pass1_st_loop max_gap_seconds labels merged s current_label current_group (i # rest) =
     (let next_label = lists s ! labels ! i;
          next_group = get_phoneme_group (phoneme (dicts s ! next_label)) in
      case convert_htk_time_to_seconds
             (start (dicts s ! next_label) - end' (dicts s ! current_label)) of
        Inl e \<Rightarrow> Inl (e, s)
      | Inr gap_seconds \<Rightarrow>
          if float_le gap_seconds max_gap_seconds \<and>
             should_merge_phonemes (phoneme (dicts s ! current_label))
               (phoneme (dicts s ! next_label)) current_group next_group
          then
            let s = dict_set_end s current_label (end' (dicts s ! next_label));
                s = (if current_group = ''silence'' \<and> next_group = ''silence''
                     then dict_set_phoneme s current_label ''SP'' else s)
            in pass1_st_loop max_gap_seconds labels merged s current_label current_group rest
          else
            let s = (if current_group = ''silence''
                     then dict_set_phoneme s current_label ''SP'' else s);
                s = list_append s merged current_label
            in case dict_copy s next_label of
                 (current_label, s) \<Rightarrow>
                   pass1_st_loop max_gap_seconds labels merged s current_label next_group rest)"

text \<open>The inner loop of the second pass. It writes to the dict \<open>current_label\<close> only, so
  the list \<open>merged\<close> keeps its length and the loop ends.\<close>

function absorb_run_st :: "store \<Rightarrow> nat \<Rightarrow> nat \<Rightarrow> nat \<Rightarrow> store \<times> nat" where
  "absorb_run_st s merged current_label j =
     (if j < length (lists s ! merged) \<and> phoneme (dicts s ! (lists s ! merged ! j)) = ''SP''
      then absorb_run_st
             (dict_set_end s current_label (end' (dicts s ! (lists s ! merged ! j))))
             merged current_label (j + 1)
      else (s, j))"
  by pat_completeness auto
termination
  by (relation "measure (\<lambda>(s, merged, current_label, j). length (lists s ! merged) - j)")
    (auto simp: dict_set_end_def)

declare absorb_run_st.simps [simp del]

text \<open>
  The outer loop of the second pass. It reads the length of \<open>merged\<close> in every round and
  appends to \<open>final_merged\<close>; were the two the same list object it would not end, so the
  loop is a partial function and \<open>None\<close> stands for a loop that does not return.
\<close>

partial_function (option) pass2_st_loop :: "store \<Rightarrow> nat \<Rightarrow> nat \<Rightarrow> nat \<Rightarrow> store option" where
  "pass2_st_loop s merged final_merged i =
     (if i < length (lists s ! merged) then
        (case dict_copy s (lists s ! merged ! i) of
           (current_label, s) \<Rightarrow>
             if phoneme (dicts s ! current_label) = ''SP'' then
               (case absorb_run_st s merged current_label (i + 1) of
                  (s, j) \<Rightarrow>
                    pass2_st_loop (list_append s final_merged current_label)
                      merged final_merged j)
             else
               pass2_st_loop (list_append s final_merged current_label)
                 merged final_merged (i + 1))
      else Some s)"

declare pass2_st_loop.simps [code]

text \<open>\<open>merge_labels\<close> on the list object \<open>labels\<close>: the reference of the returned list and
  the store after the call, or the exception and the store at the raise.\<close>

definition merge_labels_st ::
    "store \<Rightarrow> nat \<Rightarrow> pyfloat \<Rightarrow> (error \<times> store + nat \<times> store) option" where
  "merge_labels_st s labels max_gap_seconds =
     (if lists s ! labels = [] then Some (Inr (labels, s))
      else
        case new_list s of
          (merged, s) \<Rightarrow>
            (case dict_copy s (lists s ! labels ! 0) of
               (current_label, s) \<Rightarrow>
                 (case pass1_st_loop max_gap_seconds labels merged s current_label
                         (get_phoneme_group (phoneme (dicts s ! current_label)))
                         [1..<length (lists s ! labels)] of
                    Inl (e, s) \<Rightarrow> Some (Inl (e, s))
                  | Inr (s, current_label, current_group) \<Rightarrow>
                      let s = (if current_group = ''silence''
                               then dict_set_phoneme s current_label ''SP'' else s);
                          s = list_append s merged current_label
                      in case new_list s of
                           (final_merged, s) \<Rightarrow>
                             map_option (\<lambda>s. Inr (final_merged, s))
                               (pass2_st_loop s merged final_merged 0))))"

text \<open>The store that a call leaves behind, and the labels that a list object holds.\<close>

fun store_after :: "error \<times> store + nat \<times> store \<Rightarrow> store" where
  "store_after (Inl (e, s)) = s"
| "store_after (Inr (r, s)) = s"

definition labels_of :: "store \<Rightarrow> nat \<Rightarrow> label list" where
  "labels_of s l = map (\<lambda>r. dicts s ! r) (lists s ! l)"

section \<open>Notions used in the statements\<close>

text \<open>The two updates of \<open>current_label\<close>: extended by the next label, and closed
  before it is appended.\<close>

definition extended :: "label \<Rightarrow> string \<Rightarrow> label \<Rightarrow> label" where
  "extended cur grp x =
     (if grp = ''silence'' \<and> get_phoneme_group (phoneme x) = ''silence''
      then cur\<lparr>end' := end' x, phoneme := ''SP''\<rparr> else cur\<lparr>end' := end' x\<rparr>)"

definition finalized :: "label \<Rightarrow> string \<Rightarrow> label" where
  "finalized cur grp = (if grp = ''silence'' then cur\<lparr>phoneme := ''SP''\<rparr> else cur)"

text \<open>\<open>gaps_fit e xs\<close>: walking through \<open>xs\<close> from a label that ends at \<open>e\<close>, every
  gap between one label's end and the next label's start converts to a float.\<close>

fun gaps_fit :: "int \<Rightarrow> label list \<Rightarrow> bool" where
  "gaps_fit e [] = True"
| "gaps_fit e (x # xs) = (\<bar>start x - e\<bar> < 2 ^ 1024 - 2 ^ 970 \<and> gaps_fit (end' x) xs)"


text \<open>
  The merge condition of the first pass in the words of the specification: the two
  groups are equal and the gap, converted to seconds, is at most the threshold.
\<close>

definition within_gap :: "pyfloat \<Rightarrow> label \<Rightarrow> label \<Rightarrow> bool" where
  "within_gap mg a b =
     (case convert_htk_time_to_seconds (start b - end' a) of
        Inl e \<Rightarrow> False
      | Inr gap_seconds \<Rightarrow> float_le gap_seconds mg)"

definition mergeable :: "pyfloat \<Rightarrow> label \<Rightarrow> label \<Rightarrow> bool" where
  "mergeable mg a b =
     (get_phoneme_group (phoneme a) = get_phoneme_group (phoneme b) \<and> within_gap mg a b)"

text \<open>\<open>runs mg labels\<close> cuts the list between two neighbours exactly where they are not
  mergeable; \<open>coalesce_run\<close> is the one segment that stands for a run.\<close>

fun runs :: "pyfloat \<Rightarrow> label list \<Rightarrow> label list list" where
  "runs mg [] = []"
| "runs mg [a] = [[a]]"
| "runs mg (a # b # rest) =
     (if mergeable mg a b
      then (case runs mg (b # rest) of [] \<Rightarrow> [[a]] | r # rs \<Rightarrow> (a # r) # rs)
      else [a] # runs mg (b # rest))"

definition coalesce_run :: "label list \<Rightarrow> label" where
  "coalesce_run r =
     \<lparr>start = start (hd r), end' = end' (last r),
      phoneme = (if get_phoneme_group (phoneme (hd r)) = ''silence'' then ''SP''
                 else phoneme (hd r))\<rparr>"




text \<open>\<open>extends s0 s\<close>: the store \<open>s\<close> begins with the dicts and the lists of \<open>s0\<close>, each
  holding what it holds in \<open>s0\<close>; whatever else \<open>s\<close> has was made later.\<close>

definition extends :: "store \<Rightarrow> store \<Rightarrow> bool" where
  "extends s0 s =
     (take (length (dicts s0)) (dicts s) = dicts s0 \<and>
      take (length (lists s0)) (lists s) = lists s0)"

section \<open>Classification\<close>

lemma silence_entry:
  "map_of PHONEME_GROUPS ''silence'' = Some [''pau'', ''sil'', ''SP'']"
  by (simp add: PHONEME_GROUPS_def)

lemma of_char_lower_char:
  "(of_char (lower_char c) :: nat) < 65 \<or> 90 < (of_char (lower_char c) :: nat)"
proof -
  let ?n = "of_char c :: nat"
  have lt: "?n < 256" by simp
  show ?thesis
  proof (cases "(65 \<le> ?n \<and> ?n \<le> 90) \<or> (192 \<le> ?n \<and> ?n \<le> 222 \<and> ?n \<noteq> 215)")
    case True
    then have "lower_char c = char_of (?n + 32)"
      unfolding lower_char_def Let_def by (simp only: if_True)
    moreover from True lt have "(?n + 32) mod 256 = ?n + 32" by auto
    ultimately have "(of_char (lower_char c) :: nat) = ?n + 32" by simp
    with True show ?thesis by linarith
  next
    case False
    then have "lower_char c = c"
      unfolding lower_char_def Let_def by (simp only: if_False)
    with False show ?thesis by (simp only:) linarith
  qed
qed

lemma lower_char_not_capital:
  "lower_char c \<noteq> CHR ''N''" "lower_char c \<noteq> CHR ''S''"
proof -
  show "lower_char c \<noteq> CHR ''N''"
  proof
    assume "lower_char c = CHR ''N''"
    then have "(of_char (lower_char c) :: nat) = 78" by simp
    with of_char_lower_char [of c] show False by simp
  qed
  show "lower_char c \<noteq> CHR ''S''"
  proof
    assume "lower_char c = CHR ''S''"
    then have "(of_char (lower_char c) :: nat) = 83" by simp
    with of_char_lower_char [of c] show False by simp
  qed
qed

lemma lower_not_capital: "lower p \<noteq> ''N''" "lower p \<noteq> ''SP''"
  by (auto simp: lower_def lower_char_not_capital)

lemma group_of_lower_n: "lower p = ''n'' \<Longrightarrow> get_phoneme_group p = ''consonants''"
  by (simp add: get_phoneme_group_def silence_entry PHONEME_GROUPS_def)

lemma scan_groups_found:
  "scan_groups pl t = g \<Longrightarrow> g = ''unknown'' \<or> (\<exists>ps. (g, ps) \<in> set t \<and> pl \<in> set ps)"
  by (induction pl t rule: scan_groups.induct) (auto split: if_splits)

lemma silence_members:
  "(''silence'', ps) \<in> set PHONEME_GROUPS \<Longrightarrow> ps = [''pau'', ''sil'', ''SP'']"
  by (simp add: PHONEME_GROUPS_def)

lemma group_silence_iff:
  "get_phoneme_group p = ''silence'' \<longleftrightarrow> lower p = ''pau'' \<or> lower p = ''sil''"
proof
  assume "lower p = ''pau'' \<or> lower p = ''sil''"
  then show "get_phoneme_group p = ''silence''"
    by (auto simp: get_phoneme_group_def silence_entry)
next
  assume g: "get_phoneme_group p = ''silence''"
  show "lower p = ''pau'' \<or> lower p = ''sil''"
  proof (rule ccontr)
    assume n: "\<not> (lower p = ''pau'' \<or> lower p = ''sil'')"
    with lower_not_capital(2) [of p]
    have "get_phoneme_group p = scan_groups (lower p) PHONEME_GROUPS"
      by (simp add: get_phoneme_group_def silence_entry)
    with g have "scan_groups (lower p) PHONEME_GROUPS = ''silence''" by simp
    from scan_groups_found [OF this]
    obtain ps where "(''silence'', ps) \<in> set PHONEME_GROUPS" "lower p \<in> set ps"
      by auto
    with silence_members [of ps] have "lower p \<in> set [''pau'', ''sil'', ''SP'']" by simp
    with n lower_not_capital(2) [of p] show False by simp
  qed
qed

text \<open>
  C2, at the token \<open>SP\<close>. The claim says that every token whose lowercased
  form is \<open>pau\<close>, \<open>sil\<close> or \<open>sp\<close> is classified as silence. The table entry is the
  capital \<open>SP\<close> and the token is lowercased before the test, so the token \<open>SP\<close> itself
  takes the scan of the groups, is found in none, and comes out as \<open>unknown\<close>.
\<close>

theorem C2_SP_is_unknown:
  "lower ''SP'' = ''sp'' \<and> get_phoneme_group ''SP'' = ''unknown''"
  by code_simp

text \<open>
  C4. \<open>should_merge_phonemes\<close> is the equality test on the two groups, whatever the
  phonemes: every pair of \<open>merge_rules\<close> has equal components, so the list grants nothing
  that the equality test has not granted already.
\<close>

theorem C4_should_merge_is_group_equality:
  "should_merge_phonemes p1 p2 g1 g2 = (g1 = g2)"
  by (auto simp: should_merge_phonemes_def merge_rules_def)

text \<open>
  C10. The lowercased token is never \<open>N\<close> or \<open>SP\<close>, so the two capital entries of the
  table match no token: a token whose lowercased form is \<open>n\<close> is a consonant, and a token
  is classified as silence only when its lowercased form is \<open>pau\<close> or \<open>sil\<close>.
\<close>

theorem C10_capital_entries_unreachable:
  "lower p \<noteq> ''N'' \<and> lower p \<noteq> ''SP'' \<and>
   (lower p = ''n'' \<longrightarrow> get_phoneme_group p = ''consonants'' \<and> get_phoneme_group p \<noteq> ''vowels'') \<and>
   (get_phoneme_group p = ''silence'' \<longrightarrow> lower p = ''pau'' \<or> lower p = ''sil'')"
  using lower_not_capital [of p] group_of_lower_n [of p] group_silence_iff [of p]
  by simp

theorem C10_capital_entries_unreachable_witness:
  "lower ''N'' = ''n'' \<and> get_phoneme_group ''N'' = ''consonants'' \<and>
   get_phoneme_group ''Pau'' = ''silence'' \<and> lower ''Pau'' = ''pau''"
proof -
  have l: "lower ''N'' = ''n''" "lower ''Pau'' = ''pau''" by code_simp+
  have g: "get_phoneme_group ''Pau'' = ''silence''" by code_simp
  from C10_capital_entries_unreachable [of "''N''"] C10_capital_entries_unreachable [of "''Pau''"] l g
  show ?thesis by simp
qed

section \<open>The float literals\<close>

text \<open>The two literals are binary64 numbers within half a unit in the last place of
  the decimal fractions they are written as, and \<open>round_double\<close> yields them.\<close>

lemma float_1e_7_nearest:
  "float_1e_7 = Finite (7555786372591432 / 2 ^ 76) \<and>
   \<bar>7555786372591432 / 2 ^ 76 - 1 / 10 ^ 7\<bar> \<le> (1 / 2 ^ 77 :: rat)"
  by (simp add: float_1e_7_def)

lemma float_0_1_nearest:
  "float_0_1 = Finite (7205759403792794 / 2 ^ 56) \<and>
   \<bar>7205759403792794 / 2 ^ 56 - 1 / 10\<bar> \<le> (1 / 2 ^ 57 :: rat)"
  by (simp add: float_0_1_def)

lemma round_double_literals:
  "round_double (1 / 10 ^ 7) = float_1e_7" "round_double (1 / 10) = float_0_1"
  by code_simp+

section \<open>The time conversion\<close>

lemma int_to_float_error:
  "int_to_float n = Inl e \<longleftrightarrow> e = OverflowError \<and> 2 ^ 1024 - 2 ^ 970 \<le> \<bar>n\<bar>"
  by (auto simp: int_to_float_def)

lemma convert_error:
  "convert_htk_time_to_seconds d = Inl e \<longleftrightarrow> e = OverflowError \<and> 2 ^ 1024 - 2 ^ 970 \<le> \<bar>d\<bar>"
  using int_to_float_error [of d e]
  by (auto simp: convert_htk_time_to_seconds_def split: sum.splits)

lemma convert_returns:
  "\<bar>d\<bar> < 2 ^ 1024 - 2 ^ 970 \<Longrightarrow> \<exists>g. convert_htk_time_to_seconds d = Inr g"
  using convert_error [of d] by (cases "convert_htk_time_to_seconds d") auto

lemma convert_zero: "convert_htk_time_to_seconds 0 = Inr (Finite 0)"
  by (simp add: convert_htk_time_to_seconds_def int_to_float_def round_double_def
      float_1e_7_def)

section \<open>The first pass returns unless a gap overflows\<close>

lemma gaps_fit_nth:
  "gaps_fit (end' a) rest \<longleftrightarrow>
   (\<forall>i. Suc i < length (a # rest) \<longrightarrow>
      \<bar>start ((a # rest) ! Suc i) - end' ((a # rest) ! i)\<bar> < 2 ^ 1024 - 2 ^ 970)"
proof (induction rest arbitrary: a)
  case Nil
  show ?case by simp
next
  case (Cons x xs)
  show ?case
  proof
    assume l: "gaps_fit (end' a) (x # xs)"
    show "\<forall>i. Suc i < length (a # x # xs) \<longrightarrow>
      \<bar>start ((a # x # xs) ! Suc i) - end' ((a # x # xs) ! i)\<bar> < 2 ^ 1024 - 2 ^ 970"
    proof (intro allI impI)
      fix i assume i: "Suc i < length (a # x # xs)"
      show "\<bar>start ((a # x # xs) ! Suc i) - end' ((a # x # xs) ! i)\<bar> < 2 ^ 1024 - 2 ^ 970"
      proof (cases i)
        case 0
        with l show ?thesis by simp
      next
        case (Suc k)
        from l have "gaps_fit (end' x) xs" by simp
        with Cons.IH [of x] i Suc show ?thesis by simp
      qed
    qed
  next
    assume r: "\<forall>i. Suc i < length (a # x # xs) \<longrightarrow>
      \<bar>start ((a # x # xs) ! Suc i) - end' ((a # x # xs) ! i)\<bar> < 2 ^ 1024 - 2 ^ 970"
    from r [rule_format, of 0] have h: "\<bar>start x - end' a\<bar> < 2 ^ 1024 - 2 ^ 970" by simp
    have "\<forall>i. Suc i < length (x # xs) \<longrightarrow>
      \<bar>start ((x # xs) ! Suc i) - end' ((x # xs) ! i)\<bar> < 2 ^ 1024 - 2 ^ 970"
    proof (intro allI impI)
      fix i assume "Suc i < length (x # xs)"
      with r [rule_format, of "Suc i"]
      show "\<bar>start ((x # xs) ! Suc i) - end' ((x # xs) ! i)\<bar> < 2 ^ 1024 - 2 ^ 970"
        by simp
    qed
    with Cons.IH [of x] h show "gaps_fit (end' a) (x # xs)" by simp
  qed
qed

lemma should_merge_eq: "should_merge_phonemes p1 p2 g1 g2 = (g1 = g2)"
  by (auto simp: should_merge_phonemes_def merge_rules_def)

lemma pass1_loop_error:
  "convert_htk_time_to_seconds (start x - end' cur) = Inl e \<Longrightarrow>
   pass1_loop mg cur grp merged (x # xs) = Inl e"
  by simp

lemma pass1_loop_merge:
  "convert_htk_time_to_seconds (start x - end' cur) = Inr g \<Longrightarrow> float_le g mg \<Longrightarrow>
   grp = get_phoneme_group (phoneme x) \<Longrightarrow>
   pass1_loop mg cur grp merged (x # xs) = pass1_loop mg (extended cur grp x) grp merged xs"
  by (simp add: Let_def should_merge_eq extended_def)

lemma pass1_loop_emit:
  "convert_htk_time_to_seconds (start x - end' cur) = Inr g \<Longrightarrow>
   \<not> (float_le g mg \<and> grp = get_phoneme_group (phoneme x)) \<Longrightarrow>
   pass1_loop mg cur grp merged (x # xs) =
   pass1_loop mg x (get_phoneme_group (phoneme x)) (merged @ [finalized cur grp]) xs"
  by (auto simp: Let_def should_merge_eq finalized_def)

lemma extended_fields [simp]:
  "start (extended cur grp x) = start cur" "end' (extended cur grp x) = end' x"
  by (simp_all add: extended_def)

lemma pass1_loop_returns:
  "gaps_fit (end' cur) rest \<Longrightarrow> \<exists>r. pass1_loop mg cur grp merged rest = Inr r"
proof (induction rest arbitrary: cur grp merged)
  case Nil
  show ?case by simp
next
  case (Cons x xs)
  from Cons.prems have d: "\<bar>start x - end' cur\<bar> < 2 ^ 1024 - 2 ^ 970"
    and f: "gaps_fit (end' x) xs" by simp_all
  from convert_returns [OF d] obtain g
    where g: "convert_htk_time_to_seconds (start x - end' cur) = Inr g" ..
  show ?case
  proof (cases "float_le g mg \<and> grp = get_phoneme_group (phoneme x)")
    case True
    from f have "gaps_fit (end' (extended cur grp x)) xs" by simp
    from Cons.IH [OF this, of grp merged] pass1_loop_merge [OF g, of mg grp merged xs] True
    show ?thesis by simp
  next
    case False
    from Cons.IH [OF f] pass1_loop_emit [OF g False, of merged xs]
    show ?thesis by simp
  qed
qed

lemma pass1_loop_overflows:
  "\<not> gaps_fit (end' cur) rest \<Longrightarrow> pass1_loop mg cur grp merged rest = Inl OverflowError"
proof (induction rest arbitrary: cur grp merged)
  case Nil
  then show ?case by simp
next
  case (Cons x xs)
  show ?case
  proof (cases "convert_htk_time_to_seconds (start x - end' cur)")
    case (Inl e)
    with convert_error [of "start x - end' cur" e] pass1_loop_error [OF Inl]
    show ?thesis by simp
  next
    case (Inr g)
    with convert_error [of "start x - end' cur" OverflowError]
    have "\<bar>start x - end' cur\<bar> < 2 ^ 1024 - 2 ^ 970" by simp
    with Cons.prems have f: "\<not> gaps_fit (end' x) xs" by simp
    show ?thesis
    proof (cases "float_le g mg \<and> grp = get_phoneme_group (phoneme x)")
      case True
      from f have "\<not> gaps_fit (end' (extended cur grp x)) xs" by simp
      from Cons.IH [OF this, of grp merged] pass1_loop_merge [OF Inr, of mg grp merged xs] True
      show ?thesis by simp
    next
      case False
      from Cons.IH [OF f] pass1_loop_emit [OF Inr False, of merged xs]
      show ?thesis by simp
    qed
  qed
qed

lemma pass1_returns:
  "gaps_fit (end' a) rest \<Longrightarrow> \<exists>merged. pass1 (a # rest) mg = Inr merged"
proof -
  assume "gaps_fit (end' a) rest"
  from pass1_loop_returns [OF this, of mg "get_phoneme_group (phoneme a)" "[]"]
  obtain r where "pass1_loop mg a (get_phoneme_group (phoneme a)) [] rest = Inr r" ..
  then show ?thesis by (cases r) simp
qed

lemma pass1_overflows:
  "\<not> gaps_fit (end' a) rest \<Longrightarrow> pass1 (a # rest) mg = Inl OverflowError"
  using pass1_loop_overflows [of a rest mg "get_phoneme_group (phoneme a)" "[]"]
  by simp

lemma merge_labels_returns:
  assumes "\<forall>i. Suc i < length labels \<longrightarrow>
     \<bar>start (labels ! Suc i) - end' (labels ! i)\<bar> < 2 ^ 1024 - 2 ^ 970"
  shows "\<exists>out. merge_labels labels mg = Inr out"
proof (cases labels)
  case Nil
  then show ?thesis by (simp add: merge_labels_def)
next
  case (Cons a rest)
  with assms gaps_fit_nth [of a rest] have "gaps_fit (end' a) rest" by simp
  from pass1_returns [OF this, of mg] Cons show ?thesis
    by (auto simp: merge_labels_def)
qed

lemma merge_labels_overflows:
  assumes "Suc i < length labels"
    and "2 ^ 1024 - 2 ^ 970 \<le> \<bar>start (labels ! Suc i) - end' (labels ! i)\<bar>"
  shows "merge_labels labels mg = Inl OverflowError"
proof (cases labels)
  case Nil
  with assms show ?thesis by simp
next
  case (Cons a rest)
  from assms have "\<not> (\<forall>i. Suc i < length labels \<longrightarrow>
     \<bar>start (labels ! Suc i) - end' (labels ! i)\<bar> < 2 ^ 1024 - 2 ^ 970)"
    by (metis not_less)
  with gaps_fit_nth [of a rest] Cons have "\<not> gaps_fit (end' a) rest" by simp
  from pass1_overflows [OF this, of mg] Cons show ?thesis
    by (simp add: merge_labels_def)
qed

section \<open>The second pass\<close>

lemma absorb_run_stop:
  "\<not> (j < length merged \<and> phoneme (merged ! j) = ''SP'') \<Longrightarrow>
   absorb_run merged c j = (c, j)"
  by (subst absorb_run.simps) auto

lemma absorb_run_step:
  "j < length merged \<Longrightarrow> phoneme (merged ! j) = ''SP'' \<Longrightarrow>
   absorb_run merged c j = absorb_run merged (c\<lparr>end' := end' (merged ! j)\<rparr>) (j + 1)"
  by (simp add: absorb_run.simps [of merged c j])


lemma pass2_loop_done:
  "\<not> i < length merged \<Longrightarrow> pass2_loop merged i final = final"
  by (simp add: pass2_loop.simps [of merged i final])

lemma pass2_loop_other:
  "i < length merged \<Longrightarrow> phoneme (merged ! i) \<noteq> ''SP'' \<Longrightarrow>
   pass2_loop merged i final = pass2_loop merged (i + 1) (final @ [merged ! i])"
  by (simp add: pass2_loop.simps [of merged i final])

lemma pass2_loop_SP:
  "i < length merged \<Longrightarrow> phoneme (merged ! i) = ''SP'' \<Longrightarrow>
   absorb_run merged (merged ! i) (i + 1) = (c, j) \<Longrightarrow>
   pass2_loop merged i final = pass2_loop merged j (final @ [c])"
  by (simp add: pass2_loop.simps [of merged i final])





section \<open>The first pass coalesces the runs of mergeable neighbours\<close>

lemma runs_nonempty: "xs \<noteq> [] \<Longrightarrow> runs mg xs \<noteq> []"
  by (induction mg xs rule: runs.induct) (auto split: list.splits)

lemma runs_single_run:
  "r \<noteq> [] \<Longrightarrow> successively (mergeable mg) r \<Longrightarrow> runs mg r = [r]"
  by (induction mg r rule: runs.induct) auto

lemma runs_split:
  "r \<noteq> [] \<Longrightarrow> successively (mergeable mg) r \<Longrightarrow> \<not> mergeable mg (last r) x \<Longrightarrow>
   runs mg (r @ x # xs) = r # runs mg (x # xs)"
proof (induction mg r rule: runs.induct)
  case (1 mg)
  then show ?case by simp
next
  case (2 mg a)
  then show ?case by simp
next
  case (3 mg a b rest)
  then show ?case by simp
qed

lemma finalized_extended:
  assumes "finalized cur grp = coalesce_run r" and "r \<noteq> []"
    and "grp = get_phoneme_group (phoneme (hd r))"
  shows "finalized (extended cur grp x) grp = coalesce_run (r @ [x])"
proof (cases "grp = ''silence''")
  case True
  with assms(1) have "cur\<lparr>phoneme := ''SP''\<rparr> = coalesce_run r" by (simp add: finalized_def)
  then have "start cur = start (coalesce_run r)"
    by (metis label.select_convs(1) label.surjective label.update_convs(3))
  then have s: "start cur = start (hd r)" by (simp add: coalesce_run_def)
  have "finalized (extended cur grp x) grp = cur\<lparr>end' := end' x, phoneme := ''SP''\<rparr>"
    using True by (simp add: finalized_def extended_def)
  also have "\<dots> = coalesce_run (r @ [x])"
    using True assms(2,3) s by (simp add: coalesce_run_def)
  finally show ?thesis .
next
  case False
  with assms(1) have c: "cur = coalesce_run r" by (simp add: finalized_def)
  have "finalized (extended cur grp x) grp = cur\<lparr>end' := end' x\<rparr>"
    using False by (simp add: finalized_def extended_def)
  also have "\<dots> = coalesce_run (r @ [x])"
    using False assms(2,3) by (simp add: c coalesce_run_def)
  finally show ?thesis .
qed

lemma finalized_single: "finalized a (get_phoneme_group (phoneme a)) = coalesce_run [a]"
  by (simp add: finalized_def coalesce_run_def)

lemma pass1_loop_runs:
  assumes "r \<noteq> []" and "successively (mergeable mg) r"
    and "finalized cur grp = coalesce_run r"
    and "end' cur = end' (last r)"
    and "grp = get_phoneme_group (phoneme (hd r))"
    and "grp = get_phoneme_group (phoneme (last r))"
    and "gaps_fit (end' cur) rest"
  shows "\<exists>c g m. pass1_loop mg cur grp merged rest = Inr (c, g, m) \<and>
           m @ [finalized c g] = merged @ map coalesce_run (runs mg (r @ rest))"
  using assms
proof (induction rest arbitrary: r cur grp merged)
  case Nil
  then show ?case by (simp add: runs_single_run)
next
  case (Cons x xs)
  from Cons.prems(7) have d: "\<bar>start x - end' cur\<bar> < 2 ^ 1024 - 2 ^ 970"
    and f: "gaps_fit (end' x) xs" by simp_all
  from convert_returns [OF d] obtain g
    where g: "convert_htk_time_to_seconds (start x - end' cur) = Inr g" ..
  have m: "mergeable mg (last r) x \<longleftrightarrow> float_le g mg \<and> grp = get_phoneme_group (phoneme x)"
    using g Cons.prems(4,6) by (auto simp: mergeable_def within_gap_def)
  show ?case
  proof (cases "float_le g mg \<and> grp = get_phoneme_group (phoneme x)")
    case True
    let ?r = "r @ [x]"
    have 1: "?r \<noteq> []" by simp
    have 2: "successively (mergeable mg) ?r"
      using Cons.prems(1,2) m True by (simp add: successively_append_iff)
    have 3: "finalized (extended cur grp x) grp = coalesce_run ?r"
      by (rule finalized_extended [OF Cons.prems(3,1,5)])
    have 4: "end' (extended cur grp x) = end' (last ?r)" by simp
    have 5: "grp = get_phoneme_group (phoneme (hd ?r))"
      using Cons.prems(1,5) by simp
    have 6: "grp = get_phoneme_group (phoneme (last ?r))" using True by simp
    have 7: "gaps_fit (end' (extended cur grp x)) xs" using f by simp
    from Cons.IH [OF 1 2 3 4 5 6 7, of merged]
      pass1_loop_merge [OF g, of mg grp merged xs] True
    show ?thesis by simp
  next
    case False
    with m have n: "\<not> mergeable mg (last r) x" by simp
    have 1: "[x] \<noteq> []" by simp
    have 2: "successively (mergeable mg) [x]" by simp
    have 3: "finalized x (get_phoneme_group (phoneme x)) = coalesce_run [x]"
      by (rule finalized_single)
    have 4: "end' x = end' (last [x])" by simp
    have 5: "get_phoneme_group (phoneme x) = get_phoneme_group (phoneme (hd [x]))" by simp
    have 6: "get_phoneme_group (phoneme x) = get_phoneme_group (phoneme (last [x]))" by simp
    from Cons.IH [OF 1 2 3 4 5 6 f, of "merged @ [finalized cur grp]"]
    obtain c g' m' where
      l: "pass1_loop mg x (get_phoneme_group (phoneme x)) (merged @ [finalized cur grp]) xs
            = Inr (c, g', m')"
      and e: "m' @ [finalized c g'] =
            (merged @ [finalized cur grp]) @ map coalesce_run (runs mg ([x] @ xs))"
      by blast
    from runs_split [OF Cons.prems(1,2) n, of xs] Cons.prems(3) e
    have "m' @ [finalized c g'] = merged @ map coalesce_run (runs mg (r @ x # xs))"
      by simp
    with l pass1_loop_emit [OF g False, of merged xs] show ?thesis by simp
  qed
qed

lemma pass1_runs:
  assumes "gaps_fit (end' a) rest"
  shows "pass1 (a # rest) mg = Inr (map coalesce_run (runs mg (a # rest)))"
proof -
  have "\<exists>c g m. pass1_loop mg a (get_phoneme_group (phoneme a)) [] rest = Inr (c, g, m) \<and>
           m @ [finalized c g] = [] @ map coalesce_run (runs mg ([a] @ rest))"
    by (rule pass1_loop_runs) (simp_all add: finalized_single assms)
  then show ?thesis by (auto simp: finalized_def)
qed

lemma pass1_pair:
  "pass1 [a, b] mg = Inr [coalesce_run [a, b]] \<longleftrightarrow> mergeable mg a b"
proof (cases "convert_htk_time_to_seconds (start b - end' a)")
  case (Inl e)
  then have "pass1 [a, b] mg = Inl e" by simp
  moreover from Inl have "\<not> mergeable mg a b"
    by (simp add: mergeable_def within_gap_def)
  ultimately show ?thesis by simp
next
  case (Inr g)
  with convert_error [of "start b - end' a" OverflowError]
  have "gaps_fit (end' a) [b]" by simp
  from pass1_runs [OF this, of mg]
  have "pass1 [a, b] mg =
    Inr (if mergeable mg a b then [coalesce_run [a, b]]
         else [coalesce_run [a], coalesce_run [b]])"
    by simp
  then show ?thesis by (simp del: pass1.simps)
qed

section \<open>The second pass, run by run\<close>

lemma absorb_run_Cons:
  "absorb_run (y # ys) c (Suc j) = (case absorb_run ys c j of (c', j') \<Rightarrow> (c', Suc j'))"
proof (induction ys c j rule: absorb_run.induct)
  case (1 ys c j)
  show ?case
  proof (cases "j < length ys \<and> phoneme (ys ! j) = ''SP''")
    case True
    then have "absorb_run (y # ys) c (Suc j) =
        absorb_run (y # ys) (c\<lparr>end' := end' (ys ! j)\<rparr>) (Suc (j + 1))"
      using absorb_run_step [of "Suc j" "y # ys" c] by simp
    also have "\<dots> = (case absorb_run ys (c\<lparr>end' := end' (ys ! j)\<rparr>) (j + 1) of
        (c', j') \<Rightarrow> (c', Suc j'))"
      using "1.IH" [OF True] .
    also have "absorb_run ys (c\<lparr>end' := end' (ys ! j)\<rparr>) (j + 1) = absorb_run ys c j"
      using True absorb_run_step [of j ys c] by simp
    finally show ?thesis .
  next
    case False
    then have "\<not> (Suc j < length (y # ys) \<and> phoneme ((y # ys) ! Suc j) = ''SP'')" by simp
    from absorb_run_stop [OF this, of c] absorb_run_stop [OF False, of c]
    show ?thesis by simp
  qed
qed

lemma absorb_run_takeWhile:
  "absorb_run xs c 0 =
     (c\<lparr>end' := end' (last (c # takeWhile (\<lambda>x. phoneme x = ''SP'') xs))\<rparr>,
      length (takeWhile (\<lambda>x. phoneme x = ''SP'') xs))"
proof (induction xs arbitrary: c)
  case Nil
  have "\<not> (0 < length ([] :: label list) \<and> phoneme ([] ! 0) = ''SP'')" by simp
  from absorb_run_stop [OF this, of c] show ?case by simp
next
  case (Cons y ys)
  show ?case
  proof (cases "phoneme y = ''SP''")
    case True
    then have "absorb_run (y # ys) c 0 = absorb_run (y # ys) (c\<lparr>end' := end' y\<rparr>) (Suc 0)"
      using absorb_run_step [of 0 "y # ys" c] by simp
    also have "\<dots> = (case absorb_run ys (c\<lparr>end' := end' y\<rparr>) 0 of
        (c', j') \<Rightarrow> (c', Suc j'))"
      by (rule absorb_run_Cons)
    finally show ?thesis using True Cons.IH [of "c\<lparr>end' := end' y\<rparr>"] by simp
  next
    case False
    then have "\<not> (0 < length (y # ys) \<and> phoneme ((y # ys) ! 0) = ''SP'')" by simp
    from absorb_run_stop [OF this, of c] False show ?thesis by simp
  qed
qed

lemma pass2_loop_Cons: "pass2_loop (y # ys) (Suc i) final = pass2_loop ys i final"
proof (induction ys i final rule: pass2_loop.induct)
  case (1 ys i final)
  show ?case
  proof (cases "i < length ys")
    case False
    then have "\<not> Suc i < length (y # ys)" by simp
    from pass2_loop_done [OF this, of final] pass2_loop_done [OF False, of final]
    show ?thesis by simp
  next
    case inside: True
    then have inside': "Suc i < length (y # ys)" by simp
    show ?thesis
    proof (cases "phoneme (ys ! i) = ''SP''")
      case True
      obtain c j where a: "absorb_run ys (ys ! i) (i + 1) = (c, j)"
        by (cases "absorb_run ys (ys ! i) (i + 1)")
      with absorb_run_Cons [of y ys "ys ! i" "i + 1"]
      have a': "absorb_run (y # ys) ((y # ys) ! Suc i) (Suc i + 1) = (c, Suc j)" by simp
      from True have t': "phoneme ((y # ys) ! Suc i) = ''SP''" by simp
      from pass2_loop_SP [OF inside' t' a', of final] pass2_loop_SP [OF inside True a, of final]
        "1.IH"(1) [OF inside refl True a [symmetric]]
      show ?thesis by simp
    next
      case False
      then have f': "phoneme ((y # ys) ! Suc i) \<noteq> ''SP''" by simp
      from pass2_loop_other [OF inside' f', of final] pass2_loop_other [OF inside False, of final]
        "1.IH"(2) [OF inside refl False]
      show ?thesis by simp
    qed
  qed
qed

lemma pass2_loop_drop: "pass2_loop xs j final = pass2_loop (drop j xs) 0 final"
proof (induction j arbitrary: xs)
  case 0
  show ?case by simp
next
  case (Suc j)
  show ?case
  proof (cases xs)
    case Nil
    have "\<not> Suc j < length ([] :: label list)" "\<not> 0 < length ([] :: label list)" by simp_all
    from pass2_loop_done [OF this(1), of final] pass2_loop_done [OF this(2), of final] Nil
    show ?thesis by simp
  next
    case (Cons y ys)
    with Suc.IH [of ys] pass2_loop_Cons [of y ys j final] show ?thesis by simp
  qed
qed

lemma pass2_loop_acc: "pass2_loop merged i (pre @ final) = pre @ pass2_loop merged i final"
proof (induction merged i final rule: pass2_loop.induct)
  case (1 merged i final)
  show ?case
  proof (cases "i < length merged")
    case False
    from pass2_loop_done [OF False, of "pre @ final"] pass2_loop_done [OF False, of final]
    show ?thesis by simp
  next
    case inside: True
    show ?thesis
    proof (cases "phoneme (merged ! i) = ''SP''")
      case True
      obtain c j where a: "absorb_run merged (merged ! i) (i + 1) = (c, j)"
        by (cases "absorb_run merged (merged ! i) (i + 1)")
      from pass2_loop_SP [OF inside True a, of "pre @ final"]
        pass2_loop_SP [OF inside True a, of final]
        "1.IH"(1) [OF inside refl True a [symmetric]]
      show ?thesis by simp
    next
      case False
      from pass2_loop_other [OF inside False, of "pre @ final"]
        pass2_loop_other [OF inside False, of final]
        "1.IH"(2) [OF inside refl False]
      show ?thesis by simp
    qed
  qed
qed

lemma pass2_Nil: "pass2 [] = []"
  using pass2_loop_done [of 0 "[]" "[]"] by (simp add: pass2_def)

lemma pass2_other: "phoneme x \<noteq> ''SP'' \<Longrightarrow> pass2 (x # xs) = x # pass2 xs"
proof -
  assume n: "phoneme x \<noteq> ''SP''"
  have "pass2 (x # xs) = pass2_loop (x # xs) (0 + 1) ([] @ [(x # xs) ! 0])"
    unfolding pass2_def by (rule pass2_loop_other) (simp_all add: n)
  also have "\<dots> = pass2_loop xs 0 ([x] @ [])"
    using pass2_loop_Cons [of x xs 0 "[x]"] by simp
  also have "\<dots> = [x] @ pass2_loop xs 0 []" by (rule pass2_loop_acc)
  finally show ?thesis by (simp add: pass2_def)
qed

lemma pass2_SP:
  assumes "phoneme x = ''SP''"
  shows "pass2 (x # xs) =
     x\<lparr>end' := end' (last (x # takeWhile (\<lambda>x. phoneme x = ''SP'') xs))\<rparr> #
     pass2 (dropWhile (\<lambda>x. phoneme x = ''SP'') xs)"
proof -
  let ?c = "x\<lparr>end' := end' (last (x # takeWhile (\<lambda>x. phoneme x = ''SP'') xs))\<rparr>"
  let ?j = "length (takeWhile (\<lambda>x. phoneme x = ''SP'') xs)"
  have a: "absorb_run (x # xs) ((x # xs) ! 0) (0 + 1) = (?c, Suc ?j)"
    using absorb_run_Cons [of x xs x 0] absorb_run_takeWhile [of xs x] by simp
  have "pass2 (x # xs) = pass2_loop (x # xs) (Suc ?j) ([] @ [?c])"
    unfolding pass2_def by (rule pass2_loop_SP [OF _ _ a]) (simp_all add: assms)
  also have "\<dots> = pass2_loop xs ?j ([?c] @ [])"
    using pass2_loop_Cons [of x xs ?j "[?c]"] by simp
  also have "\<dots> = [?c] @ pass2_loop xs ?j []" by (rule pass2_loop_acc)
  also have "pass2_loop xs ?j [] = pass2_loop (drop ?j xs) 0 []" by (rule pass2_loop_drop)
  also have "drop ?j xs = dropWhile (\<lambda>x. phoneme x = ''SP'') xs"
    by (rule dropWhile_eq_drop [symmetric])
  finally show ?thesis by (simp add: pass2_def)
qed

lemma pass2_single: "pass2 [x] = [x]"
proof (cases "phoneme x = ''SP''")
  case True
  from pass2_SP [OF True, of "[]"] show ?thesis by (simp add: pass2_Nil)
next
  case False
  from pass2_other [OF False, of "[]"] show ?thesis by (simp add: pass2_Nil)
qed


section \<open>Claims about the merger\<close>

lemma mergeable_iff:
  "mergeable mg a b \<longleftrightarrow>
   get_phoneme_group (phoneme a) = get_phoneme_group (phoneme b) \<and>
   (\<exists>gap_seconds. convert_htk_time_to_seconds (start b - end' a) = Inr gap_seconds \<and>
      float_le gap_seconds mg)"
  by (auto simp: mergeable_def within_gap_def split: sum.splits)

lemma coalesce_pair:
  "coalesce_run [a, b] =
   \<lparr>start = start a, end' = end' b,
    phoneme = (if get_phoneme_group (phoneme a) = ''silence'' then ''SP'' else phoneme a)\<rparr>"
  by (simp add: coalesce_run_def)

lemma merge_labels_pair:
  assumes "mergeable mg a b"
  shows "merge_labels [a, b] mg = Inr [coalesce_run [a, b]]"
proof -
  from assms pass1_pair [of a b mg] have "pass1 [a, b] mg = Inr [coalesce_run [a, b]]"
    by simp
  then show ?thesis by (simp add: merge_labels_def pass2_single del: pass1.simps)
qed

lemma pass1_runs_nth:
  assumes "\<forall>i. Suc i < length labels \<longrightarrow>
     \<bar>start (labels ! Suc i) - end' (labels ! i)\<bar> < 2 ^ 1024 - 2 ^ 970"
    and "labels \<noteq> []"
  shows "pass1 labels mg = Inr (map coalesce_run (runs mg labels))"
proof -
  from assms(2) obtain a rest where l: "labels = a # rest" by (cases labels) auto
  with assms(1) gaps_fit_nth [of a rest] have "gaps_fit (end' a) rest" by simp
  from pass1_runs [OF this, of mg] l show ?thesis by simp
qed

text \<open>
  C1. In the first pass two neighbours are coalesced into one segment, from the start of
  the first to the end of the second, exactly when their groups are equal and the gap in
  seconds is at most the threshold: a list of two labels yields the one coalesced segment
  if and only if the condition holds, and then it is the output of \<open>merge_labels\<close> too;
  on a list of any length the first pass yields one coalesced segment for every maximal
  run of neighbours that meet the condition.
\<close>

theorem C1_pass1_coalesces_iff_same_group_and_gap:
  "(pass1 [a, b] mg =
      Inr [\<lparr>start = start a, end' = end' b,
            phoneme = (if get_phoneme_group (phoneme a) = ''silence'' then ''SP''
                       else phoneme a)\<rparr>]
    \<longleftrightarrow> get_phoneme_group (phoneme a) = get_phoneme_group (phoneme b) \<and>
        (\<exists>gap_seconds. convert_htk_time_to_seconds (start b - end' a) = Inr gap_seconds \<and>
           float_le gap_seconds mg)) \<and>
   (get_phoneme_group (phoneme a) = get_phoneme_group (phoneme b) \<and>
    (\<exists>gap_seconds. convert_htk_time_to_seconds (start b - end' a) = Inr gap_seconds \<and>
       float_le gap_seconds mg) \<longrightarrow>
    merge_labels [a, b] mg =
      Inr [\<lparr>start = start a, end' = end' b,
            phoneme = (if get_phoneme_group (phoneme a) = ''silence'' then ''SP''
                       else phoneme a)\<rparr>]) \<and>
   ((\<forall>i. Suc i < length labels \<longrightarrow>
       \<bar>start (labels ! Suc i) - end' (labels ! i)\<bar> < 2 ^ 1024 - 2 ^ 970) \<and>
    labels \<noteq> [] \<longrightarrow>
    pass1 labels mg = Inr (map coalesce_run (runs mg labels)))"
proof (intro conjI impI)
  show "pass1 [a, b] mg =
      Inr [\<lparr>start = start a, end' = end' b,
            phoneme = (if get_phoneme_group (phoneme a) = ''silence'' then ''SP''
                       else phoneme a)\<rparr>]
    \<longleftrightarrow> get_phoneme_group (phoneme a) = get_phoneme_group (phoneme b) \<and>
        (\<exists>gap_seconds. convert_htk_time_to_seconds (start b - end' a) = Inr gap_seconds \<and>
           float_le gap_seconds mg)"
    using pass1_pair [of a b mg] unfolding coalesce_pair mergeable_iff .
next
  assume "get_phoneme_group (phoneme a) = get_phoneme_group (phoneme b) \<and>
    (\<exists>gap_seconds. convert_htk_time_to_seconds (start b - end' a) = Inr gap_seconds \<and>
       float_le gap_seconds mg)"
  then have "mergeable mg a b" unfolding mergeable_iff .
  from merge_labels_pair [OF this]
  show "merge_labels [a, b] mg =
      Inr [\<lparr>start = start a, end' = end' b,
            phoneme = (if get_phoneme_group (phoneme a) = ''silence'' then ''SP''
                       else phoneme a)\<rparr>]"
    unfolding coalesce_pair .
next
  assume "(\<forall>i. Suc i < length labels \<longrightarrow>
       \<bar>start (labels ! Suc i) - end' (labels ! i)\<bar> < 2 ^ 1024 - 2 ^ 970) \<and>
    labels \<noteq> []"
  then show "pass1 labels mg = Inr (map coalesce_run (runs mg labels))"
    using pass1_runs_nth [of labels mg] by simp
qed

lemma float_le_zero_0_1: "float_le (Finite 0) float_0_1"
  by (simp add: float_0_1_def)

lemma groups_of_examples:
  "get_phoneme_group ''s'' = ''sibilants''" "get_phoneme_group ''z'' = ''sibilants''"
  "get_phoneme_group ''a'' = ''vowels''" "get_phoneme_group ''k'' = ''consonants''"
  "get_phoneme_group ''pau'' = ''silence''" "get_phoneme_group ''SP'' = ''unknown''"
  "get_phoneme_group ''y'' = ''unknown''"
  by code_simp+

theorem C1_pass1_coalesces_iff_same_group_and_gap_witness:
  "get_phoneme_group ''s'' = get_phoneme_group ''z'' \<and>
   convert_htk_time_to_seconds (1 - 1) = Inr (Finite 0) \<and> float_le (Finite 0) float_0_1 \<and>
   pass1 [\<lparr>start = 0, end' = 1, phoneme = ''s''\<rparr>, \<lparr>start = 1, end' = 2, phoneme = ''z''\<rparr>]
     float_0_1 = Inr [\<lparr>start = 0, end' = 2, phoneme = ''s''\<rparr>] \<and>
   merge_labels [\<lparr>start = 0, end' = 1, phoneme = ''s''\<rparr>, \<lparr>start = 1, end' = 2, phoneme = ''z''\<rparr>]
     float_0_1 = Inr [\<lparr>start = 0, end' = 2, phoneme = ''s''\<rparr>] \<and>
   pass1 [\<lparr>start = 0, end' = 1, phoneme = ''s''\<rparr>, \<lparr>start = 1, end' = 2, phoneme = ''z''\<rparr>,
          \<lparr>start = 2, end' = 3, phoneme = ''a''\<rparr>] float_0_1 =
     Inr [\<lparr>start = 0, end' = 2, phoneme = ''s''\<rparr>, \<lparr>start = 2, end' = 3, phoneme = ''a''\<rparr>]"
proof -
  let ?s = "\<lparr>start = 0, end' = 1, phoneme = ''s''\<rparr>"
  let ?z = "\<lparr>start = 1, end' = 2, phoneme = ''z''\<rparr>"
  let ?a = "\<lparr>start = 2, end' = 3, phoneme = ''a''\<rparr>"
  have c: "convert_htk_time_to_seconds (1 - 1) = Inr (Finite 0)"
    using convert_zero by simp
  have g: "get_phoneme_group ''s'' = get_phoneme_group ''z''"
    by (simp add: groups_of_examples)
  have h: "\<forall>i. Suc i < length [?s, ?z, ?a] \<longrightarrow>
       \<bar>start ([?s, ?z, ?a] ! Suc i) - end' ([?s, ?z, ?a] ! i)\<bar> < 2 ^ 1024 - 2 ^ 970"
    by (simp add: less_Suc_eq nth_Cons')
  have r: "map coalesce_run (runs float_0_1 [?s, ?z, ?a]) =
      [\<lparr>start = 0, end' = 2, phoneme = ''s''\<rparr>, ?a]"
    by (simp add: mergeable_def within_gap_def groups_of_examples convert_zero
        float_le_zero_0_1 coalesce_run_def)
  from C1_pass1_coalesces_iff_same_group_and_gap [of ?s ?z float_0_1 "[?s, ?z, ?a]"]
    c g h r float_le_zero_0_1
  show ?thesis by (simp add: groups_of_examples del: pass1.simps)
qed

text \<open>
  C3, at a pause followed by a token of no group. The first call closes the pause as
  \<open>SP\<close> and keeps the two segments apart, their groups being \<open>silence\<close> and \<open>unknown\<close>;
  the second call classifies \<open>SP\<close> as \<open>unknown\<close> too and merges them: the output of the
  second call is not the output of the first.
\<close>

theorem C3_second_call_merges_SP_with_unknown:
  "merge_labels [\<lparr>start = 0, end' = 1, phoneme = ''pau''\<rparr>,
                 \<lparr>start = 1, end' = 2, phoneme = ''y''\<rparr>] float_0_1 =
     Inr [\<lparr>start = 0, end' = 1, phoneme = ''SP''\<rparr>, \<lparr>start = 1, end' = 2, phoneme = ''y''\<rparr>] \<and>
   merge_labels [\<lparr>start = 0, end' = 1, phoneme = ''SP''\<rparr>,
                 \<lparr>start = 1, end' = 2, phoneme = ''y''\<rparr>] float_0_1 =
     Inr [\<lparr>start = 0, end' = 2, phoneme = ''SP''\<rparr>]"
  by code_simp



text \<open>
  C7, as the code behaves. \<open>merge_labels\<close> returns the empty list for the empty list, and
  it returns a list whenever every gap between a label's end and the next label's start
  is below \<open>2 ^ 1024 - 2 ^ 970\<close> in magnitude; both loops of the second pass terminate
  (the termination proofs of \<open>absorb_run\<close> and \<open>pass2_loop\<close>). A gap beyond that bound
  does not convert to a float, and the call raises \<open>OverflowError\<close>.
\<close>

theorem C7_merge_labels_returns_unless_gap_overflows:
  "merge_labels [] mg = Inr [] \<and>
   ((\<forall>i. Suc i < length labels \<longrightarrow>
       \<bar>start (labels ! Suc i) - end' (labels ! i)\<bar> < 2 ^ 1024 - 2 ^ 970) \<longrightarrow>
    (\<exists>out. merge_labels labels mg = Inr out)) \<and>
   ((\<exists>i. Suc i < length labels \<and>
       2 ^ 1024 - 2 ^ 970 \<le> \<bar>start (labels ! Suc i) - end' (labels ! i)\<bar>) \<longrightarrow>
    merge_labels labels mg = Inl OverflowError)"
  using merge_labels_returns [of labels mg] merge_labels_overflows [of _ labels mg]
  by (auto simp: merge_labels_def)

theorem C7_merge_labels_returns_unless_gap_overflows_witness:
  "(\<exists>out. merge_labels [\<lparr>start = 0, end' = 1, phoneme = ''a''\<rparr>,
                         \<lparr>start = 1, end' = 2, phoneme = ''k''\<rparr>] float_0_1 = Inr out) \<and>
   merge_labels [\<lparr>start = 0, end' = 1, phoneme = ''a''\<rparr>,
                 \<lparr>start = 2 ^ 1024, end' = 2 ^ 1024 + 1, phoneme = ''a''\<rparr>] float_0_1 =
     Inl OverflowError"
proof -
  let ?a = "\<lparr>start = 0, end' = 1, phoneme = ''a''\<rparr>"
  let ?k = "\<lparr>start = 1, end' = 2, phoneme = ''k''\<rparr>"
  let ?b = "\<lparr>start = 2 ^ 1024, end' = 2 ^ 1024 + 1, phoneme = ''a''\<rparr>"
  have h: "\<forall>i. Suc i < length [?a, ?k] \<longrightarrow>
      \<bar>start ([?a, ?k] ! Suc i) - end' ([?a, ?k] ! i)\<bar> < 2 ^ 1024 - 2 ^ 970"
    by simp
  have o: "\<exists>i. Suc i < length [?a, ?b] \<and>
      2 ^ 1024 - 2 ^ 970 \<le> \<bar>start ([?a, ?b] ! Suc i) - end' ([?a, ?b] ! i)\<bar>"
    by (rule exI [of _ 0]) simp
  from C7_merge_labels_returns_unless_gap_overflows [of float_0_1 "[?a, ?k]"]
    C7_merge_labels_returns_unless_gap_overflows [of float_0_1 "[?a, ?b]"] h o
  show ?thesis by blast
qed

theorem C7_gap_overflow_counterexample:
  "\<not> (\<exists>out. merge_labels [\<lparr>start = 0, end' = 1, phoneme = ''a''\<rparr>,
                            \<lparr>start = 2 ^ 1024, end' = 2 ^ 1024 + 1, phoneme = ''a''\<rparr>]
               float_0_1 = Inr out)"
proof -
  let ?a = "\<lparr>start = 0, end' = 1, phoneme = ''a''\<rparr>"
  let ?b = "\<lparr>start = 2 ^ 1024, end' = 2 ^ 1024 + 1, phoneme = ''a''\<rparr>"
  have "merge_labels [?a, ?b] float_0_1 = Inl OverflowError"
    by (rule merge_labels_overflows [of 0]) simp_all
  then show ?thesis by simp
qed

section \<open>Characters of a formatted line\<close>

lemma isspace_examples [simp]:
  "isspace (CHR '' '')" "isspace (CHR 0x0A)" "isspace (CHR 0x0D)" "\<not> isspace (CHR ''-'')"
  by (simp_all add: isspace_def)






section \<open>Decimal numerals\<close>











section \<open>Splitting a line\<close>

lemma str_split_Nil: "str_split [] = []"
  by (simp add: str_split.simps [of "[]"])





lemma strip_Nil_split: "strip line = [] \<Longrightarrow> str_split (strip line) = []"
  by (simp add: str_split_Nil)

section \<open>The loop over the lines\<close>








section \<open>Writing, then parsing\<close>















section \<open>Claims about the parser\<close>





section \<open>What a call does to the store\<close>

lemma extends_refl: "extends s s"
  by (simp add: extends_def)

lemma extends_length:
  "extends s0 s \<Longrightarrow> length (dicts s0) \<le> length (dicts s) \<and> length (lists s0) \<le> length (lists s)"
  by (metis extends_def length_take min.cobounded1)

lemma extends_new_list: "extends s0 s \<Longrightarrow> extends s0 (snd (new_list s))"
  using extends_length [of s0 s] by (simp add: extends_def new_list_def)

lemma extends_dict_copy: "extends s0 s \<Longrightarrow> extends s0 (snd (dict_copy s r))"
  using extends_length [of s0 s] by (simp add: extends_def dict_copy_def)

lemma extends_dict_set_end:
  "extends s0 s \<Longrightarrow> length (dicts s0) \<le> r \<Longrightarrow> extends s0 (dict_set_end s r v)"
  by (simp add: extends_def dict_set_end_def take_update_cancel)

lemma extends_dict_set_phoneme:
  "extends s0 s \<Longrightarrow> length (dicts s0) \<le> r \<Longrightarrow> extends s0 (dict_set_phoneme s r v)"
  by (simp add: extends_def dict_set_phoneme_def take_update_cancel)

lemma extends_list_append:
  "extends s0 s \<Longrightarrow> length (lists s0) \<le> l \<Longrightarrow> extends s0 (list_append s l r)"
  by (simp add: extends_def list_append_def take_update_cancel)

lemma fst_dict_copy: "fst (dict_copy s r) = length (dicts s)"
  by (simp add: dict_copy_def)

lemma list_append_other: "l \<noteq> l' \<Longrightarrow> lists (list_append s l r) ! l' = lists s ! l'"
  by (simp add: list_append_def)

lemma list_append_same:
  "x \<in> set (lists (list_append s l r) ! l) \<Longrightarrow> x \<in> set (lists s ! l) \<or> x = r"
  by (cases "l < length (lists s)") (auto simp: list_append_def list_update_beyond)

lemma pass1_st_loop_extends:
  assumes "extends s0 s" and "length (dicts s0) \<le> cr" and "length (lists s0) \<le> mr"
  shows "case pass1_st_loop mg lr mr s cr grp idx of
           Inl (e, s') \<Rightarrow> extends s0 s'
         | Inr (s', cr', grp') \<Rightarrow> extends s0 s' \<and> length (dicts s0) \<le> cr'"
  using assms
proof (induction idx arbitrary: s cr grp)
  case Nil
  then show ?case by simp
next
  case (Cons i idx)
  let ?nl = "lists s ! lr ! i"
  let ?ng = "get_phoneme_group (phoneme (dicts s ! ?nl))"
  show ?case
  proof (cases "convert_htk_time_to_seconds (start (dicts s ! ?nl) - end' (dicts s ! cr))")
    case (Inl e)
    with Cons.prems(1) show ?thesis by simp
  next
    case (Inr g)
    show ?thesis
    proof (cases "float_le g mg \<and>
        should_merge_phonemes (phoneme (dicts s ! cr)) (phoneme (dicts s ! ?nl)) grp ?ng")
      case True
      let ?s1 = "dict_set_end s cr (end' (dicts s ! ?nl))"
      let ?s2 = "if grp = ''silence'' \<and> ?ng = ''silence''
                 then dict_set_phoneme ?s1 cr ''SP'' else ?s1"
      have e1: "extends s0 ?s1" by (rule extends_dict_set_end [OF Cons.prems(1,2)])
      then have e2: "extends s0 ?s2"
        by (simp add: extends_dict_set_phoneme [OF _ Cons.prems(2)])
      have step: "pass1_st_loop mg lr mr s cr grp (i # idx) =
          pass1_st_loop mg lr mr ?s2 cr grp idx"
        using Inr True by (simp add: Let_def)
      from Cons.IH [OF e2 Cons.prems(2,3), of grp] show ?thesis
        unfolding step .
    next
      case False
      let ?s1 = "if grp = ''silence'' then dict_set_phoneme s cr ''SP'' else s"
      let ?s2 = "list_append ?s1 mr cr"
      let ?c = "fst (dict_copy ?s2 ?nl)"
      let ?s3 = "snd (dict_copy ?s2 ?nl)"
      have e1: "extends s0 ?s1"
        using Cons.prems(1) by (simp add: extends_dict_set_phoneme [OF _ Cons.prems(2)])
      then have e2: "extends s0 ?s2" by (rule extends_list_append [OF _ Cons.prems(3)])
      then have e3: "extends s0 ?s3" by (rule extends_dict_copy)
      from extends_length [OF e2] have c: "length (dicts s0) \<le> ?c"
        by (simp add: fst_dict_copy)
      have step: "pass1_st_loop mg lr mr s cr grp (i # idx) =
          pass1_st_loop mg lr mr ?s3 ?c ?ng idx"
        using Inr False by (auto simp: Let_def split_beta)
      from Cons.IH [OF e3 c Cons.prems(3), of ?ng] show ?thesis
        unfolding step .
    qed
  qed
qed

lemma absorb_run_st_extends:
  "extends s0 s \<Longrightarrow> length (dicts s0) \<le> cr \<Longrightarrow> absorb_run_st s mr cr j = (s', j') \<Longrightarrow>
   extends s0 s' \<and> lists s' = lists s \<and> j \<le> j'"
proof (induction s mr cr j rule: absorb_run_st.induct)
  case (1 s mr cr j)
  show ?case
  proof (cases "j < length (lists s ! mr) \<and> phoneme (dicts s ! (lists s ! mr ! j)) = ''SP''")
    case True
    let ?s1 = "dict_set_end s cr (end' (dicts s ! (lists s ! mr ! j)))"
    from True "1.prems"(3) have a: "absorb_run_st ?s1 mr cr (j + 1) = (s', j')"
      by (simp add: absorb_run_st.simps [of s mr cr j])
    have e: "extends s0 ?s1" by (rule extends_dict_set_end [OF "1.prems"(1,2)])
    from "1.IH" [OF True e "1.prems"(2) a]
    have "extends s0 s'" "lists s' = lists ?s1" "j + 1 \<le> j'" by simp_all
    moreover have "lists ?s1 = lists s" by (simp add: dict_set_end_def)
    ultimately show ?thesis by simp
  next
    case False
    with "1.prems"(1,3) show ?thesis
      by (simp add: absorb_run_st.simps [of s mr cr j])
  qed
qed

lemma pass2_st_loop_extends:
  assumes "mr \<noteq> fr" and "length (lists s0) \<le> fr"
  shows "extends s0 s \<Longrightarrow> \<forall>x\<in>set (lists s ! fr). length (dicts s0) \<le> x \<Longrightarrow>
         \<exists>s'. pass2_st_loop s mr fr i = Some s' \<and> extends s0 s' \<and>
              (\<forall>x\<in>set (lists s' ! fr). length (dicts s0) \<le> x)"
proof (induction "length (lists s ! mr) - i" arbitrary: s i rule: less_induct)
  case less
  show ?case
  proof (cases "i < length (lists s ! mr)")
    case False
    then have "pass2_st_loop s mr fr i = Some s"
      by (simp add: pass2_st_loop.simps [of s mr fr i])
    with less.prems show ?thesis by simp
  next
    case inside: True
    let ?x = "lists s ! mr ! i"
    let ?c = "length (dicts s)"
    let ?s1 = "snd (dict_copy s ?x)"
    have e1: "extends s0 ?s1" by (rule extends_dict_copy [OF less.prems(1)])
    have l1: "lists ?s1 = lists s" by (simp add: dict_copy_def)
    from extends_length [OF less.prems(1)] have nc: "length (dicts s0) \<le> ?c" by simp
    have fresh: "\<forall>x\<in>set (lists (list_append t fr ?c) ! fr). length (dicts s0) \<le> x"
      if "\<forall>x\<in>set (lists t ! fr). length (dicts s0) \<le> x" for t
      using that nc list_append_same [of _ t fr ?c] by blast
    show ?thesis
    proof (cases "phoneme (dicts ?s1 ! ?c) = ''SP''")
      case True
      obtain s2 j where a: "absorb_run_st ?s1 mr ?c (i + 1) = (s2, j)"
        by (cases "absorb_run_st ?s1 mr ?c (i + 1)")
      from absorb_run_st_extends [OF e1 nc a]
      have e2: "extends s0 s2" and l2: "lists s2 = lists ?s1" and j: "i + 1 \<le> j"
        by simp_all
      let ?s3 = "list_append s2 fr ?c"
      have e3: "extends s0 ?s3" by (rule extends_list_append [OF e2 assms(2)])
      have step: "pass2_st_loop s mr fr i = pass2_st_loop ?s3 mr fr j"
        using inside True a
        by (simp add: pass2_st_loop.simps [of s mr fr i] split_beta fst_dict_copy)
      have "length (lists ?s3 ! mr) - j < length (lists s ! mr) - i"
        using inside j by (simp add: list_append_other [OF assms(1) [symmetric]] l2 l1)
      moreover have "\<forall>x\<in>set (lists ?s3 ! fr). length (dicts s0) \<le> x"
        using less.prems(2) by (intro fresh) (simp add: l2 l1)
      ultimately obtain s' where "pass2_st_loop ?s3 mr fr j = Some s'"
        "extends s0 s'" "\<forall>x\<in>set (lists s' ! fr). length (dicts s0) \<le> x"
        using less.hyps [of ?s3 j] e3 by blast
      with step show ?thesis by simp
    next
      case False
      let ?s3 = "list_append ?s1 fr ?c"
      have e3: "extends s0 ?s3" by (rule extends_list_append [OF e1 assms(2)])
      have step: "pass2_st_loop s mr fr i = pass2_st_loop ?s3 mr fr (i + 1)"
        using inside False
        by (simp add: pass2_st_loop.simps [of s mr fr i] split_beta fst_dict_copy)
      have "length (lists ?s3 ! mr) - (i + 1) < length (lists s ! mr) - i"
        using inside by (simp add: list_append_other [OF assms(1) [symmetric]] l1)
      moreover have "\<forall>x\<in>set (lists ?s3 ! fr). length (dicts s0) \<le> x"
        using less.prems(2) by (intro fresh) (simp add: l1)
      ultimately obtain s' where "pass2_st_loop ?s3 mr fr (i + 1) = Some s'"
        "extends s0 s'" "\<forall>x\<in>set (lists s' ! fr). length (dicts s0) \<le> x"
        using less.hyps [of ?s3 "i + 1"] e3 by blast
      with step show ?thesis by simp
    qed
  qed
qed

lemma pass1_st_loop_lists_length:
  "case pass1_st_loop mg lr mr s cr grp idx of
     Inl (e, s') \<Rightarrow> True
   | Inr (s', cr', grp') \<Rightarrow> length (lists s) \<le> length (lists s')"
proof (induction idx arbitrary: s cr grp)
  case Nil
  show ?case by simp
next
  case (Cons i idx)
  let ?nl = "lists s ! lr ! i"
  let ?ng = "get_phoneme_group (phoneme (dicts s ! ?nl))"
  show ?case
  proof (cases "convert_htk_time_to_seconds (start (dicts s ! ?nl) - end' (dicts s ! cr))")
    case (Inl e)
    then show ?thesis by simp
  next
    case (Inr g)
    show ?thesis
    proof (cases "float_le g mg \<and>
        should_merge_phonemes (phoneme (dicts s ! cr)) (phoneme (dicts s ! ?nl)) grp ?ng")
      case True
      let ?s1 = "dict_set_end s cr (end' (dicts s ! ?nl))"
      let ?s2 = "if grp = ''silence'' \<and> ?ng = ''silence''
                 then dict_set_phoneme ?s1 cr ''SP'' else ?s1"
      have l: "length (lists ?s2) = length (lists s)"
        by (simp add: dict_set_end_def dict_set_phoneme_def)
      have step: "pass1_st_loop mg lr mr s cr grp (i # idx) =
          pass1_st_loop mg lr mr ?s2 cr grp idx"
        using Inr True by (simp add: Let_def)
      from Cons.IH [where s = ?s2 and cr = cr and grp = grp] show ?thesis
        unfolding step l .
    next
      case False
      let ?s1 = "if grp = ''silence'' then dict_set_phoneme s cr ''SP'' else s"
      let ?s2 = "list_append ?s1 mr cr"
      let ?c = "fst (dict_copy ?s2 ?nl)"
      let ?s3 = "snd (dict_copy ?s2 ?nl)"
      have l: "length (lists ?s3) = length (lists s)"
        by (simp add: dict_copy_def list_append_def dict_set_phoneme_def)
      have step: "pass1_st_loop mg lr mr s cr grp (i # idx) =
          pass1_st_loop mg lr mr ?s3 ?c ?ng idx"
        using Inr False by (auto simp: Let_def split_beta)
      from Cons.IH [where s = ?s3 and cr = ?c and grp = ?ng] show ?thesis
        unfolding step l .
    qed
  qed
qed

lemma merge_labels_st_extends:
  "\<exists>r. merge_labels_st s labels mg = Some r \<and> extends s (store_after r) \<and>
       (\<forall>l s'. r = Inr (l, s') \<and> lists s ! labels \<noteq> [] \<longrightarrow>
          length (lists s) \<le> l \<and> (\<forall>x\<in>set (lists s' ! l). length (dicts s) \<le> x))"
proof (cases "lists s ! labels = []")
  case True
  then show ?thesis by (simp add: merge_labels_st_def extends_refl)
next
  case False
  let ?mr = "length (lists s)"
  let ?s1 = "snd (new_list s)"
  let ?cr = "length (dicts ?s1)"
  let ?s2 = "snd (dict_copy ?s1 (lists ?s1 ! labels ! 0))"
  let ?grp = "get_phoneme_group (phoneme (dicts ?s2 ! ?cr))"
  let ?idx = "[1..<length (lists ?s2 ! labels)]"
  let ?p1 = "pass1_st_loop mg labels ?mr ?s2 ?cr ?grp ?idx"
  have e2: "extends s ?s2"
    by (intro extends_dict_copy extends_new_list extends_refl)
  have cr: "length (dicts s) \<le> ?cr" by (simp add: new_list_def)
  have l2: "length (lists ?s2) = Suc ?mr" by (simp add: new_list_def dict_copy_def)
  have unfold: "merge_labels_st s labels mg =
      (case ?p1 of
         Inl (e, s') \<Rightarrow> Some (Inl (e, s'))
       | Inr (s3, cr', grp') \<Rightarrow>
           map_option (\<lambda>s'. Inr (length (lists s3), s'))
             (pass2_st_loop
                (snd (new_list (list_append
                   (if grp' = ''silence'' then dict_set_phoneme s3 cr' ''SP'' else s3)
                   ?mr cr')))
                ?mr (length (lists s3)) 0))"
    using False
    by (simp add: merge_labels_st_def split_beta fst_dict_copy Let_def new_list_def
        list_append_def dict_set_phoneme_def split: sum.splits)
  show ?thesis
  proof (cases ?p1)
    case (Inl a)
    obtain e s' where a: "a = (e, s')" by (cases a)
    from pass1_st_loop_extends [OF e2 cr order_refl, where mg = mg and lr = labels
        and grp = ?grp and idx = ?idx] Inl a
    have "extends s s'" by simp
    with Inl a show ?thesis unfolding unfold by simp
  next
    case (Inr b)
    obtain s3 cr' grp' where b: "b = (s3, cr', grp')" by (cases b)
    from pass1_st_loop_extends [OF e2 cr order_refl, where mg = mg and lr = labels
        and grp = ?grp and idx = ?idx] Inr b
    have e3: "extends s s3" and cr': "length (dicts s) \<le> cr'" by simp_all
    from pass1_st_loop_lists_length [where mg = mg and lr = labels and mr = ?mr
        and s = ?s2 and cr = ?cr and grp = ?grp and idx = ?idx] Inr b l2
    have l3: "Suc ?mr \<le> length (lists s3)" by simp
    let ?s4 = "if grp' = ''silence'' then dict_set_phoneme s3 cr' ''SP'' else s3"
    let ?s5 = "list_append ?s4 ?mr cr'"
    let ?fr = "length (lists s3)"
    let ?s6 = "snd (new_list ?s5)"
    have e4: "extends s ?s4" using e3 by (simp add: extends_dict_set_phoneme [OF _ cr'])
    then have "extends s ?s5" by (rule extends_list_append) simp
    then have e6: "extends s ?s6" by (rule extends_new_list)
    have ne: "?mr \<noteq> ?fr" using l3 by simp
    have le: "length (lists s) \<le> ?fr" using l3 by simp
    have "lists ?s6 ! ?fr = []"
      by (simp add: new_list_def list_append_def dict_set_phoneme_def nth_append)
    then have em: "\<forall>x\<in>set (lists ?s6 ! ?fr). length (dicts s) \<le> x" by simp
    from pass2_st_loop_extends [OF ne le e6 em, of 0]
    obtain s' where p2: "pass2_st_loop ?s6 ?mr ?fr 0 = Some s'" and e': "extends s s'"
      and fr: "\<forall>x\<in>set (lists s' ! ?fr). length (dicts s) \<le> x" by blast
    from Inr b p2 have "merge_labels_st s labels mg = Some (Inr (?fr, s'))"
      unfolding unfold by simp
    with e' fr le show ?thesis by simp
  qed
qed

lemma extends_labels_of:
  assumes "extends s s'" and "l < length (lists s)"
    and "\<forall>x\<in>set (lists s ! l). x < length (dicts s)"
  shows "lists s' ! l = lists s ! l" and "labels_of s' l = labels_of s l"
proof -
  from assms(1) have d: "take (length (dicts s)) (dicts s') = dicts s"
    and t: "take (length (lists s)) (lists s') = lists s" by (simp_all add: extends_def)
  from assms(2) have "lists s ! l = take (length (lists s)) (lists s') ! l"
    by (simp only: t)
  also have "\<dots> = lists s' ! l" using assms(2) by simp
  finally show l: "lists s' ! l = lists s ! l" by simp
  have "dicts s' ! x = dicts s ! x" if "x < length (dicts s)" for x
  proof -
    from that have "dicts s ! x = take (length (dicts s)) (dicts s') ! x" by (simp only: d)
    also have "\<dots> = dicts s' ! x" using that by simp
    finally show ?thesis by simp
  qed
  with assms(3) show "labels_of s' l = labels_of s l" by (simp add: labels_of_def l)
qed

text \<open>
  C9. A call of \<open>merge_labels\<close> returns or raises, and in the store that it leaves behind
  every dict and every list that existed before the call holds what it held before: the
  input list has the same elements, and every label in it the same start, end and phoneme.
  For a list that is not empty the returned list is a new object, and its elements are
  dicts made by the call.
\<close>

theorem C9_merge_labels_leaves_callers_objects:
  "\<exists>r. merge_labels_st s labels mg = Some r \<and>
     take (length (dicts s)) (dicts (store_after r)) = dicts s \<and>
     take (length (lists s)) (lists (store_after r)) = lists s \<and>
     (labels < length (lists s) \<and> (\<forall>x\<in>set (lists s ! labels). x < length (dicts s)) \<longrightarrow>
        lists (store_after r) ! labels = lists s ! labels \<and>
        labels_of (store_after r) labels = labels_of s labels) \<and>
     (\<forall>l s'. r = Inr (l, s') \<and> lists s ! labels \<noteq> [] \<longrightarrow>
        length (lists s) \<le> l \<and> (\<forall>x\<in>set (lists s' ! l). length (dicts s) \<le> x))"
proof -
  from merge_labels_st_extends [of s labels mg]
  obtain r where r: "merge_labels_st s labels mg = Some r" and e: "extends s (store_after r)"
    and f: "\<forall>l s'. r = Inr (l, s') \<and> lists s ! labels \<noteq> [] \<longrightarrow>
        length (lists s) \<le> l \<and> (\<forall>x\<in>set (lists s' ! l). length (dicts s) \<le> x)"
    by blast
  from e have "take (length (dicts s)) (dicts (store_after r)) = dicts s"
    "take (length (lists s)) (lists (store_after r)) = lists s"
    by (simp_all add: extends_def)
  with r f extends_labels_of [OF e, of labels] show ?thesis by blast
qed

theorem C9_merge_labels_leaves_callers_objects_witness:
  "merge_labels_st
     \<lparr>dicts = [\<lparr>start = 0, end' = 1, phoneme = ''pau''\<rparr>, \<lparr>start = 1, end' = 2, phoneme = ''sil''\<rparr>,
               \<lparr>start = 2, end' = 3, phoneme = ''a''\<rparr>],
      lists = [[0, 1, 2]]\<rparr> 0 float_0_1 =
   Some (Inr (2,
     \<lparr>dicts = [\<lparr>start = 0, end' = 1, phoneme = ''pau''\<rparr>, \<lparr>start = 1, end' = 2, phoneme = ''sil''\<rparr>,
               \<lparr>start = 2, end' = 3, phoneme = ''a''\<rparr>,
               \<lparr>start = 0, end' = 2, phoneme = ''SP''\<rparr>, \<lparr>start = 2, end' = 3, phoneme = ''a''\<rparr>,
               \<lparr>start = 0, end' = 2, phoneme = ''SP''\<rparr>, \<lparr>start = 2, end' = 3, phoneme = ''a''\<rparr>],
      lists = [[0, 1, 2], [3, 4], [5, 6]]\<rparr>)) \<and>
   labels_of
     \<lparr>dicts = [\<lparr>start = 0, end' = 1, phoneme = ''pau''\<rparr>, \<lparr>start = 1, end' = 2, phoneme = ''sil''\<rparr>,
               \<lparr>start = 2, end' = 3, phoneme = ''a''\<rparr>,
               \<lparr>start = 0, end' = 2, phoneme = ''SP''\<rparr>, \<lparr>start = 2, end' = 3, phoneme = ''a''\<rparr>,
               \<lparr>start = 0, end' = 2, phoneme = ''SP''\<rparr>, \<lparr>start = 2, end' = 3, phoneme = ''a''\<rparr>],
      lists = [[0, 1, 2], [3, 4], [5, 6]]\<rparr> 0 =
   [\<lparr>start = 0, end' = 1, phoneme = ''pau''\<rparr>, \<lparr>start = 1, end' = 2, phoneme = ''sil''\<rparr>,
    \<lparr>start = 2, end' = 3, phoneme = ''a''\<rparr>]"
proof -
  let ?s = "\<lparr>dicts = [\<lparr>start = 0, end' = 1, phoneme = ''pau''\<rparr>,
                       \<lparr>start = 1, end' = 2, phoneme = ''sil''\<rparr>,
                       \<lparr>start = 2, end' = 3, phoneme = ''a''\<rparr>],
              lists = [[0, 1, 2]]\<rparr>"
  let ?s' = "\<lparr>dicts = [\<lparr>start = 0, end' = 1, phoneme = ''pau''\<rparr>,
                        \<lparr>start = 1, end' = 2, phoneme = ''sil''\<rparr>,
                        \<lparr>start = 2, end' = 3, phoneme = ''a''\<rparr>,
                        \<lparr>start = 0, end' = 2, phoneme = ''SP''\<rparr>,
                        \<lparr>start = 2, end' = 3, phoneme = ''a''\<rparr>,
                        \<lparr>start = 0, end' = 2, phoneme = ''SP''\<rparr>,
                        \<lparr>start = 2, end' = 3, phoneme = ''a''\<rparr>],
               lists = [[0, 1, 2], [3, 4], [5, 6]]\<rparr>"
  have m: "merge_labels_st ?s 0 float_0_1 = Some (Inr (2, ?s'))" by code_simp
  have h: "0 < length (lists ?s) \<and> (\<forall>x\<in>set (lists ?s ! 0). x < length (dicts ?s))" by simp
  have l: "labels_of ?s 0 =
      [\<lparr>start = 0, end' = 1, phoneme = ''pau''\<rparr>, \<lparr>start = 1, end' = 2, phoneme = ''sil''\<rparr>,
       \<lparr>start = 2, end' = 3, phoneme = ''a''\<rparr>]" by (simp add: labels_of_def)
  from C9_merge_labels_leaves_callers_objects [of ?s 0 float_0_1] m h l
  show ?thesis by simp
qed

end
